theory Spec2Isabelle
  imports Main "HOL-Library.Word"
begin

unbundle bit_operations_syntax

section \<open>Data model\<close>

text \<open>
  Bytes are 8-bit words, Go's \<open>uint64\<close> is a 64-bit word, Go's untyped integer
  constants are natural numbers. A byte slice is a list of bytes; a \<open>nil\<close> slice
  and an empty slice are both the empty list.
\<close>

type_synonym byte = "8 word"
type_synonym uint16 = "16 word"
type_synonym uint32 = "32 word"
type_synonym uint64 = "64 word"

text \<open>A Go \<open>error\<close> value, and the ways a call can panic.\<close>

datatype error = IOError string

datatype panic = PanicError error | IndexOutOfRange | SliceOutOfRange | NilPointer

text \<open>The constants of the package (untyped in Go).\<close>

definition NullByte :: byte where
  "NullByte = 0"

definition MaxUint08 :: nat where
  "MaxUint08 = 2 ^ 8 - 1"

definition MaxUint16 :: nat where
  "MaxUint16 = 2 ^ 16 - 1"

definition MaxUint24 :: nat where
  "MaxUint24 = 2 ^ 24 - 1"

definition MaxUint64 :: nat where
  "MaxUint64 = 2 ^ 64 - 1"

text \<open>
  The byte scanner of a connection (\<open>bufio.Scanner\<close> split by \<open>bufio.ScanBytes\<close>):
  the bytes the transport still delivers, one token each, and how the stream ends once
  they are used up: \<open>None\<close> is a clean end of file, after which \<open>Scan\<close> is false and
  \<open>Err()\<close> is \<open>nil\<close>; \<open>Some e\<close> is a read error, after which \<open>Scan\<close> is false and
  \<open>Err()\<close> is \<open>e\<close>.
\<close>

record Scanner =
  pending :: "byte list"
  ending :: "error option"

text \<open>
  The buffered writer of a connection (\<open>bufio.Writer\<close> over the transport): the
  frames written and flushed so far, and the writer's sticky error.
\<close>

record Writer =
  sent :: "byte list list"
  werr :: "error option"

text \<open>The fields of \<open>Conn\<close> that the codec and the framer read or write.\<close>

record Conn =
  err :: "error option"
  sequenceID :: uint64
  writeBuf :: "byte list option"
  scanPos :: uint64
  scanner :: Scanner
  buffer :: Writer

section \<open>Little-endian integers (\<open>encoding/binary\<close>)\<close>

text \<open>The \<open>n\<close> low bytes of a word, least significant first.\<close>

fun le_bytes :: "nat \<Rightarrow> 'a::len word \<Rightarrow> byte list" where
  "le_bytes 0 v = []"
| "le_bytes (Suc k) v = ucast v # le_bytes k (drop_bit 8 v)"

text \<open>The number a little-endian byte string denotes.\<close>

fun le_nat :: "byte list \<Rightarrow> nat" where
  "le_nat [] = 0"
| "le_nat (b # bs) = unat b + 256 * le_nat bs"

text \<open>
  \<open>binary.LittleEndian.PutUintN(b, v)\<close> overwrites the first \<open>N/8\<close> bytes of \<open>b\<close>;
  every call of the package passes a slice that is long enough.
\<close>

definition PutUint :: "nat \<Rightarrow> byte list \<Rightarrow> 'a::len word \<Rightarrow> byte list" where
  "PutUint n b v = le_bytes n v @ drop n b"

text \<open>
  \<open>binary.LittleEndian.UintN(b)\<close> reads the first \<open>N/8\<close> bytes of \<open>b\<close> and panics
  when \<open>b\<close> is shorter.
\<close>

definition Uint :: "nat \<Rightarrow> byte list \<Rightarrow> panic + 'a::len word" where
  "Uint n b = (if length b < n then Inl IndexOutOfRange else Inr (of_nat (le_nat (take n b))))"

text \<open>
  \<open>_ = binary.Read(r, binary.LittleEndian, &x)\<close> for an unsigned \<open>x\<close> of \<open>n\<close>
  bytes, with the error dropped as the package does: when the reader holds fewer than
  \<open>n\<close> bytes, \<open>Read\<close> fails and \<open>x\<close> keeps its value.
\<close>

definition binary_Read :: "nat \<Rightarrow> byte list \<Rightarrow> 'a::len word \<Rightarrow> 'a word" where
  "binary_Read n r x = (if length r < n then x else of_nat (le_nat (take n r)))"

section \<open>Wire codec: reading\<close>

text \<open>
  \<open>readBytes\<close>: \<open>l\<close> calls of \<open>Scan\<close>. A failed scan with an error panics; a failed
  scan without one (end of file) adds nothing and the loop goes on.
\<close>

fun readBytes_loop :: "nat \<Rightarrow> byte list \<Rightarrow> Scanner \<Rightarrow> panic + (byte list \<times> Scanner)" where
  "readBytes_loop 0 b s = Inr (b, s)"
| "readBytes_loop (Suc k) b s =
     (case pending s of
        x # xs \<Rightarrow> readBytes_loop k (b @ [x]) (s\<lparr>pending := xs\<rparr>)
      | [] \<Rightarrow> (case ending s of
                 Some e \<Rightarrow> Inl (PanicError e)
               | None \<Rightarrow> readBytes_loop k b s))"

definition readBytes :: "uint64 \<Rightarrow> Conn \<Rightarrow> panic + (byte list \<times> Conn)" where
  "readBytes l c =
     (case readBytes_loop (unat l) [] (scanner c) of
        Inl p \<Rightarrow> Inl p
      | Inr (b, s) \<Rightarrow> Inr (b, c\<lparr>scanner := s, scanPos := scanPos c + of_nat (length b)\<rparr>))"

definition padBytes :: "nat \<Rightarrow> byte list \<Rightarrow> byte list" where
  "padBytes l b = b @ replicate (l - length b) NullByte"

definition decFixedInt :: "uint64 \<Rightarrow> Conn \<Rightarrow> panic + (uint64 \<times> Conn)" where
  "decFixedInt l c =
     (case readBytes l c of
        Inl p \<Rightarrow> Inl p
      | Inr (b, c') \<Rightarrow>
          if l \<le> 2 then Inr (ucast (binary_Read 2 (padBytes 2 b) (0 :: uint16)), c')
          else if l \<le> 4 then Inr (ucast (binary_Read 4 (padBytes 4 b) (0 :: uint32)), c')
          else if l \<le> 8 then Inr (binary_Read 8 (padBytes 8 b) (0 :: uint64), c')
          else Inr (0, c'))"

definition decLenEncInt :: "Conn \<Rightarrow> panic + (uint64 \<times> Conn)" where
  "decLenEncInt c =
     (case readBytes 1 c of
        Inl p \<Rightarrow> Inl p
      | Inr (b, c') \<Rightarrow>
          (let l = binary_Read 2 b (0 :: uint16)
           in if l > 0 then decFixedInt (ucast l) c' else Inr (0, c')))"

section \<open>Wire codec: writing\<close>

text \<open>\<open>make([]byte, n)\<close>.\<close>

definition make :: "nat \<Rightarrow> byte list" where
  "make n = replicate n 0"

text \<open>\<open>b[:l]\<close> of a slice made with capacity 8 panics for \<open>l > 8\<close>.\<close>

definition encFixedLenInt :: "uint64 \<Rightarrow> uint64 \<Rightarrow> panic + byte list" where
  "encFixedLenInt v l =
     (let b = PutUint 8 (make 8) v
      in if unat l \<le> 8 then Inr (take (unat l) b) else Inl SliceOutOfRange)"

definition encLenEncInt :: "uint64 \<Rightarrow> byte list" where
  "encLenEncInt v =
     (let (prefix, b) =
        (if unat v < MaxUint08 then
           ([0], take 1 (PutUint 2 (make 2) (ucast v :: uint16)))
         else if unat v \<ge> MaxUint08 \<and> unat v < MaxUint16 then
           ([0xFC], take 2 (PutUint 2 (make 3) (ucast v :: uint16)))
         else if unat v \<ge> MaxUint16 \<and> unat v < MaxUint24 then
           ([0xFD], take 3 (PutUint 4 (make 4) (ucast v :: uint32)))
         else if unat v \<ge> MaxUint24 \<and> unat v < MaxUint64 then
           ([0xFE], PutUint 8 (make 9) v)
         else ([0], []))
      in if length b > 1 then prefix @ b else b)"


text \<open>
  \<open>structToBitmask\<close>. The struct is the list of its boolean fields in declaration
  order. \<open>math.Ceil(float64(fC) / 8.0)\<close> is \<open>(fC + 7) div 8\<close> (exact for every field
  count a struct can have).
\<close>

fun structToBitmask_loop :: "nat \<Rightarrow> bool list \<Rightarrow> uint64 \<Rightarrow> uint64" where
  "structToBitmask_loop i [] m = m"
| "structToBitmask_loop i (v # vs) m =
     structToBitmask_loop (Suc i) vs (if v then m OR push_bit i 1 else m)"

definition structToBitmask :: "bool list \<Rightarrow> byte list" where
  "structToBitmask s =
     (let fC = length s;
          m = structToBitmask_loop 0 s 0;
          l = (fC + 7) div 8;
          b = PutUint 8 (make 8) m
      in if l > 4 then take 8 b
         else if l > 2 then take 4 b
         else if l > 1 then take 2 b
         else take 1 b)"

text \<open>The least of the widths 1, 2, 4 and 8 bytes that holds \<open>k\<close> bits (8 beyond 32).\<close>

definition maskWidth :: "nat \<Rightarrow> nat" where
  "maskWidth k = (if k \<le> 8 then 1 else if k \<le> 16 then 2 else if k \<le> 32 then 4 else 8)"

text \<open>
  \<open>bitmaskToStruct\<close>. The second argument of the source only gives the struct type;
  here it is the number of its (boolean) fields. Field \<open>i\<close> is set from bit \<open>i\<close> of the
  mask, read at a width chosen by \<open>len(b)\<close>; Go's \<open>uint\<close> is 64 bits wide.
\<close>

definition bitmaskField :: "byte list \<Rightarrow> nat \<Rightarrow> panic + bool" where
  "bitmaskField b i =
     (let l = length b
      in if l > 4 then
           (case Uint 8 b of Inl p \<Rightarrow> Inl p
            | Inr (x :: uint64) \<Rightarrow> Inr (x AND push_bit i 1 > 0))
         else if l > 2 then
           (case Uint 4 b of Inl p \<Rightarrow> Inl p
            | Inr (x :: uint32) \<Rightarrow> Inr (x AND push_bit i 1 > 0))
         else if l > 1 then
           (case Uint 2 b of Inl p \<Rightarrow> Inl p
            | Inr (x :: uint16) \<Rightarrow> Inr (x AND push_bit i 1 > 0))
         else
           (case b of [] \<Rightarrow> Inl IndexOutOfRange
            | b0 # _ \<Rightarrow> Inr ((ucast b0 :: uint64) AND push_bit i 1 > 0)))"

fun bitmaskToStruct_loop :: "byte list \<Rightarrow> nat \<Rightarrow> nat \<Rightarrow> panic + bool list" where
  "bitmaskToStruct_loop b i 0 = Inr []"
| "bitmaskToStruct_loop b i (Suc n) =
     (case bitmaskField b i of
        Inl p \<Rightarrow> Inl p
      | Inr v \<Rightarrow> (case bitmaskToStruct_loop b (Suc i) n of
                   Inl p \<Rightarrow> Inl p
                 | Inr vs \<Rightarrow> Inr (v # vs)))"

definition bitmaskToStruct :: "byte list \<Rightarrow> nat \<Rightarrow> panic + bool list" where
  "bitmaskToStruct b numField = bitmaskToStruct_loop b 0 numField"

section \<open>Packet framer\<close>

text \<open>
  \<open>newBinlogConn\<close> sets \<open>sequenceID\<close> to 1 and leaves every other field at its zero
  value. The scanner and the buffered writer, which \<open>setConnection\<close> installs before
  the first read or write, are here the empty stream and the empty writer.
\<close>

definition newBinlogConn :: Conn where
  "newBinlogConn =
     \<lparr>err = None, sequenceID = 1, writeBuf = None, scanPos = 0,
      scanner = \<lparr>pending = [], ending = None\<rparr>,
      buffer = \<lparr>sent = [], werr = None\<rparr>\<rparr>"

definition setupWriteBuffer :: "Conn \<Rightarrow> Conn" where
  "setupWriteBuffer c = (if writeBuf c = None then c\<lparr>writeBuf := Some []\<rparr> else c)"

text \<open>
  \<open>c.writeBuf.Write(b)\<close> of \<open>bytes.Buffer\<close>: appends \<open>b\<close> and returns its length;
  the error it returns is always \<open>nil\<close>. On a \<open>nil\<close> buffer the call panics.
\<close>

definition writeBuf_Write :: "byte list \<Rightarrow> Conn \<Rightarrow> panic + (nat \<times> error option \<times> Conn)" where
  "writeBuf_Write b c =
     (case writeBuf c of
        None \<Rightarrow> Inl NilPointer
      | Some w \<Rightarrow> Inr (length b, None, c\<lparr>writeBuf := Some (w @ b)\<rparr>))"

definition putBytes :: "byte list \<Rightarrow> Conn \<Rightarrow> panic + (uint64 \<times> Conn)" where
  "putBytes v c =
     (case writeBuf_Write v (setupWriteBuffer c) of
        Inl p \<Rightarrow> Inl p
      | Inr (l, e, c') \<Rightarrow> Inr (of_nat l, if e \<noteq> None then c'\<lparr>err := e\<rparr> else c'))"

definition TypeFixedInt :: int where
  "TypeFixedInt = 2"

definition TypeLenEncInt :: int where
  "TypeLenEncInt = 3"

definition putInt :: "int \<Rightarrow> uint64 \<Rightarrow> uint64 \<Rightarrow> Conn \<Rightarrow> panic + (uint64 \<times> Conn)" where
  "putInt t v l c =
     (case (if t = TypeFixedInt then encFixedLenInt v l
            else if t = TypeLenEncInt then Inr (encLenEncInt v)
            else Inr []) of
        Inl p \<Rightarrow> Inl p
      | Inr b \<Rightarrow>
          (case writeBuf_Write b (setupWriteBuffer c) of
             Inl p \<Rightarrow> Inl p
           | Inr (n, e, c') \<Rightarrow> Inr (of_nat n, if e \<noteq> None then c'\<lparr>err := e\<rparr> else c')))"

text \<open>
  \<open>addHeader\<close>: the 3-byte length of the accumulator, the low byte of the sequence
  counter, then the accumulator; the counter is advanced.
\<close>

definition addHeader :: "Conn \<Rightarrow> panic + (byte list \<times> Conn)" where
  "addHeader c =
     (case writeBuf c of
        None \<Rightarrow> Inl NilPointer
      | Some w \<Rightarrow>
          (let pl = (of_nat (length w) :: uint64);
               sID = sequenceID c;
               c' = c\<lparr>sequenceID := sequenceID c + 1\<rparr>
           in case encFixedLenInt pl 3 of
                Inl p \<Rightarrow> Inl p
              | Inr plB \<Rightarrow>
                  (case encFixedLenInt sID 1 of
                     Inl p \<Rightarrow> Inl p
                   | Inr sIDB \<Rightarrow> Inr ((plB @ sIDB) @ w, c'))))"

text \<open>
  \<open>c.buffer.Write(bs)\<close> followed by \<open>c.buffer.Flush()\<close> on the buffered writer. A
  writer that holds an error returns it and sends nothing. Otherwise the transport
  decides: \<open>net = None\<close> when it takes the bytes, \<open>net = Some e\<close> when its write fails
  with \<open>e\<close>, which the writer then holds. Bytes that a failing write delivered in part
  are not recorded.
\<close>

definition buffer_Write_Flush :: "error option \<Rightarrow> byte list \<Rightarrow> Writer \<Rightarrow> error option \<times> Writer" where
  "buffer_Write_Flush net bs w =
     (case werr w of
        Some e \<Rightarrow> (Some e, w)
      | None \<Rightarrow>
          (case net of
             None \<Rightarrow> (None, w\<lparr>sent := sent w @ [bs]\<rparr>)
           | Some e \<Rightarrow> (Some e, w\<lparr>werr := Some e\<rparr>)))"

text \<open>
  \<open>Flush\<close>, with the transport's answer \<open>net\<close> to the write it may attempt. The second
  call of \<open>c.buffer.Flush()\<close> in the failure branch returns the error the writer holds.
\<close>

definition Flush :: "error option \<Rightarrow> Conn \<Rightarrow> panic + (error option \<times> Conn)" where
  "Flush net c =
     (if err c \<noteq> None then Inr (err c, c)
      else
        (case addHeader c of
           Inl p \<Rightarrow> Inl p
         | Inr (hb, c1) \<Rightarrow>
             (let c2 = c1\<lparr>writeBuf := Some hb\<rparr>;
                  (r, w) = buffer_Write_Flush net hb (buffer c2);
                  c3 = c2\<lparr>buffer := w\<rparr>
              in if r \<noteq> None then Inr (r, c3)
                 else Inr (None, c3\<lparr>writeBuf := None\<rparr>))))"

text \<open>Successive calls of \<open>Flush\<close>, with the value each one returns.\<close>

fun Flush_calls :: "error option list \<Rightarrow> Conn \<Rightarrow> panic + (error option list \<times> Conn)" where
  "Flush_calls [] c = Inr ([], c)"
| "Flush_calls (net # nets) c =
     (case Flush net c of
        Inl p \<Rightarrow> Inl p
      | Inr (r, c') \<Rightarrow>
          (case Flush_calls nets c' of
             Inl p \<Rightarrow> Inl p
           | Inr (rs, c'') \<Rightarrow> Inr (r # rs, c'')))"

text \<open>
  A run of packets: each payload is put into the accumulator and flushed over a
  transport that takes every write; the run stops at the first flush that returns an
  error.
\<close>

fun flushPackets :: "byte list list \<Rightarrow> Conn \<Rightarrow> panic + Conn" where
  "flushPackets [] c = Inr c"
| "flushPackets (p # ps) c =
     (case putBytes p c of
        Inl x \<Rightarrow> Inl x
      | Inr (n, c1) \<Rightarrow>
          (case Flush None c1 of
             Inl x \<Rightarrow> Inl x
           | Inr (Some e, c2) \<Rightarrow> Inr c2
           | Inr (None, c2) \<Rightarrow> flushPackets ps c2))"

text \<open>The reset of the counter that \<open>Open\<close> makes after authentication and after registration.\<close>

definition resetSequenceID :: "Conn \<Rightarrow> Conn" where
  "resetSequenceID c = c\<lparr>sequenceID := 0\<rparr>"

section \<open>Password algorithms\<close>

text \<open>
  \<open>crypto/sha1\<close> and \<open>crypto/sha256\<close> are parameters: a function from the message
  to its digest. The properties below hold for every such function of the stated digest
  width.
\<close>

type_synonym digest = "byte list \<Rightarrow> byte list"

definition sha1Hash :: "digest \<Rightarrow> byte list \<Rightarrow> byte list" where
  "sha1Hash sha1 word = sha1 word"

definition sha256Hash :: "digest \<Rightarrow> byte list \<Rightarrow> byte list" where
  "sha256Hash sha256 word = sha256 word"

text \<open>
  \<open>for i := range pHash { pHash[i] ^= other[i] }\<close>: panics when \<open>other\<close> is shorter
  than \<open>pHash\<close>.
\<close>

fun xorRange :: "byte list \<Rightarrow> byte list \<Rightarrow> panic + byte list" where
  "xorRange [] other = Inr []"
| "xorRange (p # ps) [] = Inl IndexOutOfRange"
| "xorRange (p # ps) (x # xs) =
     (case xorRange ps xs of Inl e \<Rightarrow> Inl e | Inr r \<Rightarrow> Inr ((p XOR x) # r))"

text \<open>\<open>nativeSha1Auth\<close> as \<open>src/binlog/authentication.go\<close> has it.\<close>

definition nativeSha1Auth_binlog :: "digest \<Rightarrow> byte list \<Rightarrow> byte list \<Rightarrow> panic + byte list" where
  "nativeSha1Auth_binlog sha1 salt password =
     (let pHash = sha1Hash sha1 password;
          pHashHash = sha1Hash sha1 pHash;
          spHash = sha1Hash sha1 (salt @ pHashHash)
      in xorRange pHash spHash)"

text \<open>\<open>nativeSha1Auth\<close> as the second authentication file has it, with the guard.\<close>

definition nativeSha1Auth :: "digest \<Rightarrow> byte list \<Rightarrow> byte list \<Rightarrow> panic + byte list" where
  "nativeSha1Auth sha1 salt password =
     (if length password < 1 then Inr []
      else
        (let pHash = sha1Hash sha1 password;
             pHashHash = sha1Hash sha1 pHash;
             spHash = sha1Hash sha1 (salt @ pHashHash)
         in xorRange pHash spHash))"

text \<open>\<open>cachingSha2Auth\<close>, the same in both files.\<close>

definition cachingSha2Auth :: "digest \<Rightarrow> byte list \<Rightarrow> byte list \<Rightarrow> panic + byte list" where
  "cachingSha2Auth sha256 salt password =
     (if length password < 1 then Inr []
      else
        (let pHash = sha256Hash sha256 password;
             pHashHash = sha256Hash sha256 pHash;
             pHashHashHash = sha256Hash sha256 pHashHash;
             authData = sha256Hash sha256 (pHashHashHash @ salt)
         in xorRange pHash authData))"

text \<open>
  A stand-in digest of a given width, used only to instantiate the digest parameter at
  concrete inputs: the length of the message and its first byte, padded with zeros.
\<close>

definition standin :: "nat \<Rightarrow> digest" where
  "standin w msg = take w ((of_nat (length msg) # take 1 msg) @ replicate w 0)"

text \<open>
  A second stand-in, which tells the iterated digests of a message apart: a checksum
  byte (the length of the message plus the sum of its bytes), then the message itself,
  cut or padded with zeros to the width.
\<close>

definition prefixed :: "nat \<Rightarrow> digest" where
  "prefixed w msg = take w (((of_nat (length msg) + sum_list msg) # msg) @ replicate w 0)"

section \<open>Facts about the little-endian codec\<close>

lemma le_bytes_numeral [simp]:
  "le_bytes (numeral n) v = ucast v # le_bytes (pred_numeral n) (drop_bit 8 v)"
  by (simp add: numeral_eq_Suc)

lemma readBytes_loop_numeral [simp]:
  "readBytes_loop (numeral n) b s =
     (case pending s of
        x # xs \<Rightarrow> readBytes_loop (pred_numeral n) (b @ [x]) (s\<lparr>pending := xs\<rparr>)
      | [] \<Rightarrow> (case ending s of
                 Some e \<Rightarrow> Inl (PanicError e)
               | None \<Rightarrow> readBytes_loop (pred_numeral n) b s))"
  by (simp add: numeral_eq_Suc)

lemma readBytes_loop_eq:
  "readBytes_loop n b s =
     (if n \<le> length (pending s) \<or> ending s = None
      then Inr (b @ take n (pending s), s\<lparr>pending := drop n (pending s)\<rparr>)
      else Inl (PanicError (the (ending s))))"
proof (induction n arbitrary: b s)
  case 0
  show ?case by simp
next
  case (Suc n)
  show ?case
  proof (cases "pending s")
    case Nil
    then show ?thesis using Suc by (cases "ending s") auto
  next
    case (Cons x xs)
    then show ?thesis using Suc by auto
  qed
qed

lemma le_nat_le_bytes: "le_nat (le_bytes n v) = unat v mod 256 ^ n"
proof (induction n arbitrary: v)
  case 0
  show ?case by simp
next
  case (Suc n)
  have a: "unat (ucast v :: byte) = unat v mod 256"
    by (simp add: unsigned_ucast_eq take_bit_eq_mod)
  have b: "unat (drop_bit 8 v) = unat v div 256"
    unfolding unat_drop_bit_eq by (simp add: drop_bit_eq_div)
  have "unat v mod 256 + 256 * (unat v div 256 mod 256 ^ n) = unat v mod (256 * 256 ^ n)"
    by (simp add: mod_mult2_eq)
  then show ?case using Suc[of "drop_bit 8 v"] a b by simp
qed

lemma length_le_bytes [simp]: "length (le_bytes n v) = n"
  by (induction n arbitrary: v) auto

lemma take_le_bytes: "n \<le> m \<Longrightarrow> take n (le_bytes m v) = le_bytes n v"
proof (induction n arbitrary: m v)
  case 0
  show ?case by simp
next
  case (Suc n)
  then obtain m' where "m = Suc m'" by (cases m) auto
  then show ?case using Suc by simp
qed

lemma le_nat_append_zeros [simp]: "le_nat (bs @ replicate k 0) = le_nat bs"
  by (induction bs) (auto, induction k, auto)

lemma encFixedLenInt_eq:
  "unat l \<le> 8 \<Longrightarrow> encFixedLenInt v l = Inr (le_bytes (unat l) v)"
  by (simp add: encFixedLenInt_def PutUint_def make_def take_le_bytes del: le_bytes_numeral)

lemma readBytes_enough:
  "pending (scanner c) = bs @ rest \<Longrightarrow> unat l = length bs \<Longrightarrow>
   readBytes l c = Inr (bs, c\<lparr>scanner := (scanner c)\<lparr>pending := rest\<rparr>, scanPos := scanPos c + l\<rparr>)"
proof -
  assume p: "pending (scanner c) = bs @ rest" and l: "unat l = length bs"
  have "word_of_nat (length bs) = l"
    using l [symmetric] by simp
  then show ?thesis
    using p l by (simp add: readBytes_def readBytes_loop_eq)
qed

lemma binary_Read_le_bytes:
  "n \<le> m \<Longrightarrow> LENGTH('a::len) = 8 * m \<Longrightarrow>
   unat (binary_Read m (padBytes m (le_bytes n v)) (x :: 'a word)) = unat v mod 2 ^ (8 * n)"
proof -
  assume nm: "n \<le> m" and len: "LENGTH('a) = 8 * m"
  have "(256::nat) ^ n = 2 ^ (8 * n)"
    by (simp add: power_mult)
  moreover have "unat v mod 2 ^ (8 * n) < 2 ^ (8 * m)"
    using nm by (meson less_le_trans mod_less_divisor zero_less_numeral zero_less_power power_increasing one_le_numeral mult_le_mono2)
  ultimately show ?thesis
    using nm len by (simp add: binary_Read_def padBytes_def NullByte_def le_nat_le_bytes unat_of_nat)
qed


section \<open>Length-encoded integers\<close>

text \<open>
  C10. For \<open>v = 2^64 - 1\<close>, the largest unsigned 64-bit value, no case of the switch in
  \<open>encLenEncInt\<close> applies and the function returns the empty byte string.
\<close>

theorem encLenEncInt_MaxUint64: "encLenEncInt (of_nat (2 ^ 64 - 1)) = []"
  by (simp add: encLenEncInt_def MaxUint08_def MaxUint16_def MaxUint24_def MaxUint64_def)

text \<open>
  The decoder reads the prefix byte and drops it: \<open>binary.Read\<close> of a two-byte
  integer from the one byte read fails, so the length stays 0 and so does the result.
\<close>

lemma decLenEncInt_drops_prefix:
  "decLenEncInt c = (case readBytes 1 c of Inl p \<Rightarrow> Inl p | Inr (b, c') \<Rightarrow> Inr (0, c'))"
proof (cases "readBytes 1 c")
  case (Inl p)
  then show ?thesis by (simp add: decLenEncInt_def)
next
  case (Inr r)
  obtain b c' where r: "r = (b, c')" by (cases r)
  have "length b \<le> 1"
    using Inr r by (auto simp: readBytes_def readBytes_loop_eq split: if_splits)
  then have "binary_Read 2 b (0 :: uint16) = 0"
    by (simp add: binary_Read_def)
  then show ?thesis using Inr r by (simp add: decLenEncInt_def)
qed

text \<open>
  C1. The decoder should read a 2-byte integer after the prefix \<open>0xFC\<close>. On the
  stream \<open>FC 34 12\<close> (the encoding of \<open>0x1234\<close>) \<open>decLenEncInt\<close> returns 0 and leaves
  the two bytes of the integer unread.
\<close>

theorem decLenEncInt_prefix_0xFC:
  "decLenEncInt (newBinlogConn\<lparr>scanner := \<lparr>pending = [0xFC, 0x34, 0x12], ending = None\<rparr>\<rparr>) =
     Inr (0, newBinlogConn\<lparr>scanner := \<lparr>pending = [0x34, 0x12], ending = None\<rparr>, scanPos := 1\<rparr>)"
  by (simp add: decLenEncInt_def readBytes_def binary_Read_def newBinlogConn_def)

lemma decLenEncInt_one_byte_value:
  "decLenEncInt (newBinlogConn\<lparr>scanner := \<lparr>pending = [0x05], ending = None\<rparr>\<rparr>) =
     Inr (0, newBinlogConn\<lparr>scanner := \<lparr>pending = [], ending = None\<rparr>, scanPos := 1\<rparr>)"
  by (simp add: decLenEncInt_def readBytes_def binary_Read_def newBinlogConn_def)

lemmas encLenEncInt_eval =
  encLenEncInt_def MaxUint08_def MaxUint16_def MaxUint24_def MaxUint64_def PutUint_def make_def
  drop_bit_eq_div

text \<open>
  C2. The encoder should switch to the prefix \<open>0xFC\<close> at 251, to \<open>0xFD\<close> at 65536 and
  should write 8 bytes after \<open>0xFE\<close>. \<open>encLenEncInt\<close> switches at 255 and at 65535, and
  after \<open>0xFE\<close> it writes 9 bytes.
\<close>

theorem encLenEncInt_boundaries:
  "encLenEncInt 251 = [0xFB] \<and>
   encLenEncInt 254 = [0xFE] \<and>
   encLenEncInt 65535 = [0xFD, 0xFF, 0xFF, 0] \<and>
   encLenEncInt 16777216 = [0xFE, 0, 0, 0, 1, 0, 0, 0, 0, 0]"
  by (simp add: encLenEncInt_eval)

lemma encLenEncInt_agreeing_values:
  "encLenEncInt 250 = [0xFA] \<and>
   encLenEncInt 255 = [0xFC, 0xFF, 0] \<and>
   encLenEncInt 65536 = [0xFD, 0, 0, 1]"
  by (simp add: encLenEncInt_eval)

section \<open>Fixed-length integers\<close>

lemma unat_ucast_uint16: "unat (ucast (x :: uint16) :: uint64) = unat x"
  by (simp add: unsigned_ucast_eq take_bit_nat_eq_self_iff order_less_trans [OF unsigned_less])

lemma unat_ucast_uint32: "unat (ucast (x :: uint32) :: uint64) = unat x"
  by (simp add: unsigned_ucast_eq take_bit_nat_eq_self_iff order_less_trans [OF unsigned_less])

lemma decFixedInt_le_bytes:
  assumes n: "unat n \<in> {1, 2, 3, 4, 8}"
    and p: "pending (scanner c) = le_bytes (unat n) v @ rest"
  shows "\<exists>w. decFixedInt n c =
           Inr (w, c\<lparr>scanner := (scanner c)\<lparr>pending := rest\<rparr>, scanPos := scanPos c + n\<rparr>) \<and>
           unat w = unat (v :: uint64) mod 2 ^ (8 * unat n)"
proof -
  have r: "readBytes n c =
      Inr (le_bytes (unat n) v, c\<lparr>scanner := (scanner c)\<lparr>pending := rest\<rparr>, scanPos := scanPos c + n\<rparr>)"
    using p by (rule readBytes_enough) simp
  consider "unat n \<le> 2" | "2 < unat n" "unat n \<le> 4" | "unat n = 8"
    using n by auto
  then show ?thesis
  proof cases
    case 1
    then have "n \<le> 2" by (simp add: word_le_nat_alt)
    then show ?thesis
      using r 1 by (simp add: decFixedInt_def unat_ucast_uint16 binary_Read_le_bytes del: le_bytes_numeral)
  next
    case 2
    then have "\<not> n \<le> 2" "n \<le> 4" by (simp_all add: word_le_nat_alt)
    then show ?thesis
      using r 2 by (simp add: decFixedInt_def unat_ucast_uint32 binary_Read_le_bytes del: le_bytes_numeral)
  next
    case 3
    then have "\<not> n \<le> 2" "\<not> n \<le> 4" "n \<le> 8" by (simp_all add: word_le_nat_alt)
    then show ?thesis
      using r 3 by (simp add: decFixedInt_def binary_Read_le_bytes del: le_bytes_numeral)
  qed
qed

text \<open>
  C6. For \<open>n\<close> in \<open>{1, 2, 3, 4, 8}\<close>, \<open>encFixedLenInt v n\<close> returns \<open>n\<close> bytes, and
  \<open>decFixedInt n\<close> on a stream that starts with them returns \<open>v mod 2^(8n)\<close>, having
  read exactly those bytes.
\<close>

theorem decFixedInt_encFixedLenInt:
  assumes "n \<in> {1, 2, 3, 4, 8}"
  shows "\<exists>bs. encFixedLenInt v n = Inr bs \<and> length bs = unat n \<and>
           (\<forall>c rest. pending (scanner c) = bs @ rest \<longrightarrow>
              (\<exists>w. decFixedInt n c =
                      Inr (w, c\<lparr>scanner := (scanner c)\<lparr>pending := rest\<rparr>,
                                scanPos := scanPos c + n\<rparr>) \<and>
                    unat w = unat v mod 2 ^ (8 * unat n)))"
proof -
  have n: "unat n \<in> {1, 2, 3, 4, 8}"
    using assms by auto
  then have "unat n \<le> 8" by auto
  then have "encFixedLenInt v n = Inr (le_bytes (unat n) v)"
    by (rule encFixedLenInt_eq)
  then show ?thesis
    using decFixedInt_le_bytes [OF n] by auto
qed

theorem decFixedInt_encFixedLenInt_witness:
  "(3 :: uint64) \<in> {1, 2, 3, 4, 8} \<and>
   encFixedLenInt 0x0102030405060708 3 = Inr [8, 7, 6] \<and>
   decFixedInt 3 (newBinlogConn\<lparr>scanner := \<lparr>pending = [8, 7, 6, 9], ending = None\<rparr>\<rparr>) =
     Inr (0x060708, newBinlogConn\<lparr>scanner := \<lparr>pending = [9], ending = None\<rparr>, scanPos := 3\<rparr>)"
proof -
  let ?c = "newBinlogConn\<lparr>scanner := \<lparr>pending = [8, 7, 6, 9], ending = None\<rparr>\<rparr>"
  have enc: "encFixedLenInt 0x0102030405060708 3 = Inr [8, 7, 6]"
    by (simp add: encFixedLenInt_def PutUint_def make_def drop_bit_eq_div)
  obtain bs where bs: "encFixedLenInt 0x0102030405060708 3 = Inr bs"
    and dec: "\<forall>c rest. pending (scanner c) = bs @ rest \<longrightarrow>
              (\<exists>w. decFixedInt 3 c =
                      Inr (w, c\<lparr>scanner := (scanner c)\<lparr>pending := rest\<rparr>,
                                scanPos := scanPos c + 3\<rparr>) \<and>
                    unat w = unat (0x0102030405060708 :: uint64) mod 2 ^ (8 * unat (3 :: uint64)))"
    using decFixedInt_encFixedLenInt [of 3 "0x0102030405060708"] by auto
  have "bs = [8, 7, 6]" using bs enc by simp
  moreover have "pending (scanner ?c) = [8, 7, 6] @ [9]" by simp
  ultimately obtain w where w: "decFixedInt 3 ?c =
      Inr (w, ?c\<lparr>scanner := (scanner ?c)\<lparr>pending := [9]\<rparr>, scanPos := scanPos ?c + 3\<rparr>)"
    and u: "unat w = unat (0x0102030405060708 :: uint64) mod 2 ^ (8 * unat (3 :: uint64))"
    using dec by blast
  have "unat w = unat (0x060708 :: uint64)" using u by simp
  then have "w = 0x060708" by (simp only: word_unat_eq_iff)
  then show ?thesis using w enc by (simp add: newBinlogConn_def)
qed

section \<open>Truncated input\<close>

lemma decFixedInt_eof_returns:
  "ending (scanner c) = None \<Longrightarrow> \<exists>w c'. decFixedInt l c = Inr (w, c')"
  by (simp add: decFixedInt_def readBytes_def readBytes_loop_eq)

lemma decFixedInt_read_error_panics:
  "ending (scanner c) = Some e \<Longrightarrow> length (pending (scanner c)) < unat l \<Longrightarrow>
   decFixedInt l c = Inl (PanicError e)"
  by (simp add: decFixedInt_def readBytes_def readBytes_loop_eq)

text \<open>
  C9. A decode that finds fewer bytes than it needs should fail. With one byte left
  before a clean end of file, \<open>decFixedInt 2\<close> returns that byte padded with a zero
  byte as its value, and no error.
\<close>

theorem decFixedInt_truncated_at_eof:
  "decFixedInt 2 (newBinlogConn\<lparr>scanner := \<lparr>pending = [0x34], ending = None\<rparr>\<rparr>) =
     Inr (0x34, newBinlogConn\<lparr>scanner := \<lparr>pending = [], ending = None\<rparr>, scanPos := 1\<rparr>)"
  by (simp add: decFixedInt_def readBytes_def binary_Read_def padBytes_def NullByte_def
      newBinlogConn_def)

section \<open>Flushing\<close>

text \<open>
  \<open>bytes.Buffer.Write\<close> returns no error, so the put functions never record one.
\<close>

lemma putBytes_keeps_err: "putBytes v c = Inr (n, c') \<Longrightarrow> err c' = err c"
  by (auto simp: putBytes_def setupWriteBuffer_def writeBuf_Write_def split: option.splits if_splits)

lemma putInt_keeps_err: "putInt t v l c = Inr (n, c') \<Longrightarrow> err c' = err c"
  by (auto simp: putInt_def setupWriteBuffer_def writeBuf_Write_def
      split: sum.splits option.splits if_splits)

lemma Flush_held: "err c = Some e \<Longrightarrow> Flush net c = Inr (Some e, c)"
  by (simp add: Flush_def)

text \<open>
  C5. While the connection holds an error, every call of \<open>Flush\<close> returns that error
  and leaves the whole connection as it was: nothing is sent, and the accumulator and
  the sequence counter keep their values.
\<close>

theorem Flush_calls_held_error:
  assumes "err c = Some e"
  shows "Flush_calls nets c = Inr (map (\<lambda>net. Some e) nets, c)"
  using assms by (induction nets) (simp_all add: Flush_held)

theorem Flush_calls_held_error_witness:
  "err (newBinlogConn\<lparr>err := Some (IOError ''write''), writeBuf := Some [7]\<rparr>) = Some (IOError ''write'') \<and>
   Flush_calls [None, Some (IOError ''reset''), None]
       (newBinlogConn\<lparr>err := Some (IOError ''write''), writeBuf := Some [7]\<rparr>) =
     Inr ([Some (IOError ''write''), Some (IOError ''write''), Some (IOError ''write'')],
          newBinlogConn\<lparr>err := Some (IOError ''write''), writeBuf := Some [7]\<rparr>)"
  using Flush_calls_held_error [of "newBinlogConn\<lparr>err := Some (IOError ''write''), writeBuf := Some [7]\<rparr>"
      "IOError ''write''" "[None, Some (IOError ''reset''), None]"]
  by simp

section \<open>Sequence counter\<close>

lemma putBytes_eq:
  "putBytes p c =
     Inr (of_nat (length p),
          c\<lparr>writeBuf := Some ((case writeBuf c of None \<Rightarrow> [] | Some w \<Rightarrow> w) @ p)\<rparr>)"
  by (cases "writeBuf c") (simp_all add: putBytes_def setupWriteBuffer_def writeBuf_Write_def)

lemma addHeader_eq:
  "writeBuf c = Some w \<Longrightarrow>
   addHeader c =
     Inr (le_bytes 3 (of_nat (length w) :: uint64) @ [ucast (sequenceID c)] @ w,
          c\<lparr>sequenceID := sequenceID c + 1\<rparr>)"
  by (simp add: addHeader_def encFixedLenInt_eq del: le_bytes_numeral)

lemma Flush_ok:
  assumes "err c = None" and "werr (buffer c) = None" and "writeBuf c = Some w"
  shows "Flush None c =
     Inr (None, c\<lparr>sequenceID := sequenceID c + 1, writeBuf := None,
                  buffer := (buffer c)\<lparr>sent := sent (buffer c) @
                     [le_bytes 3 (of_nat (length w) :: uint64) @ [ucast (sequenceID c)] @ w]\<rparr>\<rparr>)"
  using assms by (simp add: Flush_def addHeader_eq buffer_Write_Flush_def del: le_bytes_numeral)

lemma header_sequence_byte:
  "(le_bytes 3 (x :: uint64) @ [b] @ w) ! 3 = b"
  by (simp add: nth_append)

lemma flushPackets_frames:
  assumes "err c = None" and "werr (buffer c) = None"
  shows "\<exists>c' frames. flushPackets ps c = Inr c' \<and> err c' = None \<and> werr (buffer c') = None \<and>
           sent (buffer c') = sent (buffer c) @ frames \<and> length frames = length ps \<and>
           sequenceID c' = sequenceID c + of_nat (length ps) \<and>
           (\<forall>i < length ps. frames ! i ! 3 = ucast (sequenceID c + of_nat i))"
  using assms
proof (induction ps arbitrary: c)
  case Nil
  then show ?case by simp
next
  case (Cons p ps)
  define w where "w = (case writeBuf c of None \<Rightarrow> [] | Some w \<Rightarrow> w) @ p"
  define frame where "frame = le_bytes 3 (of_nat (length w) :: uint64) @ [ucast (sequenceID c)] @ w"
  define c1 where "c1 = c\<lparr>writeBuf := Some w\<rparr>"
  define c2 where "c2 = c1\<lparr>sequenceID := sequenceID c1 + 1, writeBuf := None,
                  buffer := (buffer c1)\<lparr>sent := sent (buffer c1) @ [frame]\<rparr>\<rparr>"
  have put: "putBytes p c = Inr (of_nat (length p), c1)"
    by (simp add: putBytes_eq c1_def w_def)
  have fl: "Flush None c1 = Inr (None, c2)"
    unfolding c2_def frame_def
    using Cons.prems by (subst Flush_ok [where w = w]) (simp_all add: c1_def)
  have step: "flushPackets (p # ps) c = flushPackets ps c2"
    by (simp add: put fl)
  have e2: "err c2 = None" "werr (buffer c2) = None"
    using Cons.prems by (simp_all add: c2_def c1_def)
  obtain c' frames where c': "flushPackets ps c2 = Inr c'" "err c' = None"
      "werr (buffer c') = None" "sent (buffer c') = sent (buffer c2) @ frames"
      "length frames = length ps" "sequenceID c' = sequenceID c2 + of_nat (length ps)"
      "\<forall>i < length ps. frames ! i ! 3 = ucast (sequenceID c2 + of_nat i)"
    using Cons.IH [OF e2] by blast
  have s2: "sent (buffer c2) = sent (buffer c) @ [frame]" "sequenceID c2 = sequenceID c + 1"
    by (simp_all add: c2_def c1_def)
  have f3: "frame ! 3 = ucast (sequenceID c)"
    unfolding frame_def by (rule header_sequence_byte)
  have ids: "(frame # frames) ! i ! 3 = ucast (sequenceID c + of_nat i)"
    if "i < length (p # ps)" for i
  proof (cases i)
    case 0
    then show ?thesis by (simp add: f3)
  next
    case (Suc j)
    then have "j < length ps" using that by simp
    then have "frames ! j ! 3 = ucast (sequenceID c2 + of_nat j)"
      using c'(7) by blast
    then show ?thesis by (simp add: Suc s2 ac_simps)
  qed
  have "sent (buffer c') = sent (buffer c) @ (frame # frames)"
    by (simp add: c'(4) s2)
  moreover have "sequenceID c' = sequenceID c + of_nat (length (p # ps))"
    by (simp add: c'(6) s2 ac_simps)
  moreover have "length (frame # frames) = length (p # ps)"
    by (simp add: c'(5))
  moreover have "flushPackets (p # ps) c = Inr c'"
    using step c'(1) by simp
  moreover have "\<forall>i < length (p # ps). (frame # frames) ! i ! 3 = ucast (sequenceID c + of_nat i)"
    using ids by blast
  ultimately show ?case
    using c'(2,3) by (intro exI [of _ c'] exI [of _ "frame # frames"]) (simp only: simp_thms)
qed

lemma unat_low_byte: "unat (ucast (x + of_nat i :: uint64) :: byte) = (unat x + i) mod 256"
proof -
  have "unat (x + of_nat i) = (unat x + i) mod 2 ^ 64"
    by (simp add: unat_word_ariths unat_of_nat mod_add_right_eq)
  moreover have "(unat x + i) mod 2 ^ 64 mod 256 = (unat x + i) mod 256"
    by (rule mod_mod_cancel) simp
  ultimately show ?thesis
    by (simp add: unsigned_ucast_eq take_bit_eq_mod)
qed

text \<open>
  C4, as the code has it. When packets are flushed over a working transport, without a
  reset in between, from a counter that stands at \<open>s\<close>, the \<open>k\<close>-th header carries
  \<open>(s + k - 1) mod 256\<close>. A new connection starts at \<open>s = 1\<close>; a reset sets \<open>s = 0\<close>.
\<close>

theorem flushPackets_sequence_ids:
  assumes "err c = None" and "werr (buffer c) = None" and "sent (buffer c) = []"
  shows "sequenceID newBinlogConn = 1 \<and> sequenceID (resetSequenceID c) = 0 \<and>
         (\<exists>c'. flushPackets ps c = Inr c' \<and> length (sent (buffer c')) = length ps \<and>
            (\<forall>k. 1 \<le> k \<and> k \<le> length ps \<longrightarrow>
               unat (sent (buffer c') ! (k - 1) ! 3) = (unat (sequenceID c) + k - 1) mod 256))"
proof -
  obtain c' frames where c': "flushPackets ps c = Inr c'"
      "sent (buffer c') = sent (buffer c) @ frames" "length frames = length ps"
      "\<forall>i < length ps. frames ! i ! 3 = ucast (sequenceID c + of_nat i)"
    using flushPackets_frames [OF assms(1,2)] by blast
  have "unat (sent (buffer c') ! (k - 1) ! 3) = (unat (sequenceID c) + k - 1) mod 256"
    if k1: "1 \<le> k" and k2: "k \<le> length ps" for k
  proof -
    obtain j where j: "k = Suc j" by (cases k) (use k1 in auto)
    then have "j < length ps" using k2 by simp
    then have "frames ! j ! 3 = ucast (sequenceID c + of_nat j)"
      using c'(4) by blast
    then have "unat (frames ! j ! 3) = (unat (sequenceID c) + j) mod 256"
      by (simp only: unat_low_byte)
    then show ?thesis
      by (simp add: c'(2) assms(3) j)
  qed
  then show ?thesis
    using c' assms(3) by (auto simp: newBinlogConn_def resetSequenceID_def)
qed

theorem flushPackets_sequence_ids_witness:
  "err newBinlogConn = None \<and> werr (buffer newBinlogConn) = None \<and>
   sent (buffer newBinlogConn) = [] \<and>
   (\<exists>c'. flushPackets [[0x0e], [0x0e], [0x0e]] newBinlogConn = Inr c' \<and>
      length (sent (buffer c')) = 3 \<and> unat (sent (buffer c') ! 2 ! 3) = 3)"
proof -
  have h: "err newBinlogConn = None" "werr (buffer newBinlogConn) = None"
      "sent (buffer newBinlogConn) = []"
    by (simp_all add: newBinlogConn_def)
  obtain c' where c': "flushPackets [[0x0e], [0x0e], [0x0e]] newBinlogConn = Inr c'"
      "length (sent (buffer c')) = length [[0x0e], [0x0e], [0x0e :: byte]]"
      "\<forall>k. 1 \<le> k \<and> k \<le> length [[0x0e], [0x0e], [0x0e :: byte]] \<longrightarrow>
         unat (sent (buffer c') ! (k - 1) ! 3) = (unat (sequenceID newBinlogConn) + k - 1) mod 256"
    using flushPackets_sequence_ids [OF h, of "[[0x0e], [0x0e], [0x0e]]"] by blast
  have "unat (sent (buffer c') ! (3 - 1) ! 3) = (unat (sequenceID newBinlogConn) + 3 - 1) mod 256"
    using c'(3) [rule_format, of 3] by simp
  then have "unat (sent (buffer c') ! 2 ! 3) = 3"
    by (simp add: newBinlogConn_def)
  then show ?thesis using h c'(1,2) by simp
qed

text \<open>
  The first packet a new connection flushes carries sequence ID 1, where \<open>(N - 1) mod 256\<close>
  is 0.
\<close>

theorem first_flush_of_new_connection:
  "flushPackets [[0x0e]] newBinlogConn =
     Inr (newBinlogConn\<lparr>sequenceID := 2, buffer := \<lparr>sent = [[1, 0, 0, 1, 0x0e]], werr = None\<rparr>\<rparr>) \<and>
   unat ([1, 0, 0, 1, 0x0e :: byte] ! 3) \<noteq> (1 - 1) mod 256"
  by (simp add: putBytes_eq newBinlogConn_def Flush_def addHeader_def encFixedLenInt_def
      PutUint_def make_def buffer_Write_Flush_def drop_bit_eq_div)

section \<open>Capability bitmasks\<close>

lemma structToBitmask_loop_bit:
  "bit (structToBitmask_loop i vs m) j \<longleftrightarrow>
     bit m j \<or> (i \<le> j \<and> j < 64 \<and> j - i < length vs \<and> vs ! (j - i))"
proof (induction vs arbitrary: i m)
  case Nil
  show ?case by simp
next
  case (Cons v vs)
  have "j - i = Suc (j - Suc i)" if "i < j"
    using that by simp
  then show ?case
    by (cases "i = j") (auto simp: Cons bit_simps nth_Cons')
qed

lemma and_push_bit_pos: "(0 < x AND 2 ^ i) = bit (x :: 'a::len word) i"
  by (simp add: word_gt_0 and_exp_eq_0_iff_not_bit)

lemma of_nat_le_nat_le_bytes:
  assumes "LENGTH('a::len) = 8 * w"
  shows "(of_nat (le_nat (le_bytes w m)) :: 'a word) = ucast (m :: uint64)"
proof -
  have "(256::nat) ^ w = 2 ^ LENGTH('a)"
    by (simp add: assms power_mult)
  then have "unat (of_nat (le_nat (le_bytes w m)) :: 'a word) = unat (ucast m :: 'a word)"
    by (simp add: le_nat_le_bytes unat_of_nat unsigned_ucast_eq take_bit_eq_mod)
  then show ?thesis by (simp only: word_unat_eq_iff)
qed

lemma bitmaskField_le_bytes:
  assumes "w \<in> {1, 2, 4, 8}" and "i < 8 * w"
  shows "bitmaskField (le_bytes w (m :: uint64)) i = Inr (bit m i)"
proof -
  consider "w = 8" | "w = 4" | "w = 2" | "w = 1"
    using assms(1) by auto
  then show ?thesis
  proof cases
    case 1
    have "(of_nat (le_nat (le_bytes 8 m)) :: uint64) = ucast m"
      by (rule of_nat_le_nat_le_bytes) simp
    then show ?thesis
      using 1 by (simp add: bitmaskField_def Uint_def and_push_bit_pos del: le_bytes_numeral)
  next
    case 2
    have "(of_nat (le_nat (le_bytes 4 m)) :: uint32) = ucast m"
      by (rule of_nat_le_nat_le_bytes) simp
    then show ?thesis
      using 2 assms(2)
      by (simp add: bitmaskField_def Uint_def and_push_bit_pos bit_ucast_iff del: le_bytes_numeral)
  next
    case 3
    have "(of_nat (le_nat (le_bytes 2 m)) :: uint16) = ucast m"
      by (rule of_nat_le_nat_le_bytes) simp
    then show ?thesis
      using 3 assms(2)
      by (simp add: bitmaskField_def Uint_def and_push_bit_pos bit_ucast_iff del: le_bytes_numeral)
  next
    case 4
    then show ?thesis
      using assms(2) by (simp add: bitmaskField_def and_push_bit_pos bit_ucast_iff)
  qed
qed

lemma bitmaskToStruct_loop_le_bytes:
  assumes "w \<in> {1, 2, 4, 8}"
  shows "i + n \<le> 8 * w \<Longrightarrow>
         bitmaskToStruct_loop (le_bytes w (m :: uint64)) i n = Inr (map (bit m) [i..<i + n])"
proof (induction n arbitrary: i)
  case 0
  show ?case by simp
next
  case (Suc n)
  have "i < 8 * w" using Suc.prems by simp
  then have f: "bitmaskField (le_bytes w m) i = Inr (bit m i)"
    using assms by (rule bitmaskField_le_bytes [rotated])
  have "bitmaskToStruct_loop (le_bytes w m) (Suc i) n = Inr (map (bit m) [Suc i..<Suc i + n])"
    using Suc.prems by (intro Suc.IH) simp
  then show ?case
    using f by (simp add: upt_rec [of i])
qed

lemma structToBitmask_eq:
  "structToBitmask s = le_bytes (maskWidth (length s)) (structToBitmask_loop 0 s 0)"
proof -
  define k where "k = length s"
  define l where "l = (k + 7) div 8"
  define m where "m = structToBitmask_loop 0 s 0"
  have put: "PutUint 8 (make 8) x = le_bytes 8 x" for x :: uint64
    by (simp add: PutUint_def make_def del: le_bytes_numeral)
  have eq: "structToBitmask s =
      (if l > 4 then take 8 (le_bytes 8 m) else if l > 2 then take 4 (le_bytes 8 m)
       else if l > 1 then take 2 (le_bytes 8 m) else take 1 (le_bytes 8 m))"
    by (simp add: structToBitmask_def Let_def put k_def l_def m_def del: le_bytes_numeral)
  consider (a) "k \<le> 8" | (b) "8 < k" "k \<le> 16" | (c) "16 < k" "k \<le> 32" | (d) "32 < k"
    by linarith
  then have "structToBitmask s = le_bytes (maskWidth k) m"
  proof cases
    case a
    then have "l \<le> 1" unfolding l_def by arith
    then show ?thesis
      using a by (simp add: eq maskWidth_def take_le_bytes del: le_bytes_numeral)
  next
    case b
    then have "l = 2" unfolding l_def by arith
    then show ?thesis
      using b by (simp add: eq maskWidth_def take_le_bytes del: le_bytes_numeral)
  next
    case c
    then have "2 < l" "l \<le> 4" unfolding l_def by arith+
    then show ?thesis
      using c by (simp add: eq maskWidth_def take_le_bytes del: le_bytes_numeral)
  next
    case d
    then have "4 < l" unfolding l_def by arith
    then show ?thesis
      using d by (simp add: eq maskWidth_def take_le_bytes del: le_bytes_numeral)
  qed
  then show ?thesis by (simp add: k_def m_def)
qed

text \<open>
  C7. For a struct of \<open>k\<close> boolean fields, \<open>1 \<le> k \<le> 64\<close>, \<open>structToBitmask\<close> writes
  1, 2, 4 or 8 bytes (the least of these widths that holds \<open>k\<close> bits), bit \<open>i\<close> of the
  little-endian mask is field \<open>i\<close>, and \<open>bitmaskToStruct\<close> reads the same fields back.
\<close>

theorem bitmaskToStruct_structToBitmask:
  assumes "1 \<le> length s" and "length s \<le> 64"
  shows "bitmaskToStruct (structToBitmask s) (length s) = Inr s \<and>
         length (structToBitmask s) =
           (if length s \<le> 8 then 1 else if length s \<le> 16 then 2
            else if length s \<le> 32 then 4 else 8) \<and>
         (\<forall>i < length s. bit (le_nat (structToBitmask s)) i = s ! i)"
proof -
  define m where "m = structToBitmask_loop 0 s 0"
  define w where "w = maskWidth (length s)"
  have w: "w \<in> {1, 2, 4, 8}" "length s \<le> 8 * w"
    using assms(2) by (auto simp: w_def maskWidth_def)
  have enc: "structToBitmask s = le_bytes w m"
    by (simp add: structToBitmask_eq w_def m_def)
  have bits: "bit m i = s ! i" if "i < length s" for i
    using that assms(2) by (simp add: m_def structToBitmask_loop_bit)
  have "bitmaskToStruct_loop (le_bytes w m) 0 (length s) = Inr (map (bit m) [0..<0 + length s])"
    using w by (intro bitmaskToStruct_loop_le_bytes) simp_all
  moreover have "map (bit m) [0..<length s] = s"
    by (rule nth_equalityI) (simp_all add: bits)
  ultimately have rt: "bitmaskToStruct (structToBitmask s) (length s) = Inr s"
    by (simp add: bitmaskToStruct_def enc)
  have len: "length (structToBitmask s) = w"
    by (simp add: enc)
  have "bit (le_nat (structToBitmask s)) i = s ! i" if "i < length s" for i
  proof -
    have "i < 8 * w" using that w(2) by simp
    moreover have "(256::nat) ^ w = 2 ^ (8 * w)" by (simp add: power_mult)
    ultimately have "bit (le_nat (le_bytes w m)) i = bit (unat m) i"
      by (simp add: le_nat_le_bytes bit_take_bit_iff flip: take_bit_eq_mod)
    then show ?thesis
      using bits [OF that] by (simp add: enc bit_unsigned_iff)
  qed
  then show ?thesis
    using rt len by (simp add: w_def maskWidth_def)
qed

theorem bitmaskToStruct_structToBitmask_witness:
  "1 \<le> length [True, False, True, True, False, False, False, False, True] \<and>
   length [True, False, True, True, False, False, False, False, True] \<le> 64 \<and>
   structToBitmask [True, False, True, True, False, False, False, False, True] = [0x0D, 0x01] \<and>
   bitmaskToStruct [0x0D, 0x01] 9 =
     Inr [True, False, True, True, False, False, False, False, True]"
proof -
  let ?s = "[True, False, True, True, False, False, False, False, True]"
  have enc: "structToBitmask ?s = [0x0D, 0x01]"
    by (simp add: structToBitmask_def PutUint_def make_def drop_bit_eq_div)
  have "bitmaskToStruct (structToBitmask ?s) (length ?s) = Inr ?s"
    using bitmaskToStruct_structToBitmask [of ?s] by simp
  then show ?thesis
    using enc by (simp add: eval_nat_numeral)
qed

section \<open>Password responses\<close>

lemma xorRange_eq:
  "length ps \<le> length xs \<Longrightarrow> xorRange ps xs = Inr (map2 (XOR) ps xs)"
  by (induction ps xs rule: xorRange.induct) simp_all

lemma nativeSha1Auth_empty_password: "nativeSha1Auth sha1 salt [] = Inr []"
  by (simp add: nativeSha1Auth_def)

lemma cachingSha2Auth_empty_password: "cachingSha2Auth sha256 salt [] = Inr []"
  by (simp add: cachingSha2Auth_def)

lemma length_standin [simp]: "length (standin w msg) = w"
  by (simp add: standin_def)

lemma length_prefixed [simp]: "length (prefixed w msg) = w"
  by (simp add: prefixed_def)

text \<open>
  C3. The response should be \<open>SHA256(password) XOR SHA256(SHA256(SHA256(password)) ++ salt)\<close>:
  the salt follows the second digest of the password. \<open>cachingSha2Auth\<close> hashes once
  more: for every non-empty password the salt follows the third digest,
  \<open>SHA256(password) XOR SHA256(SHA256(SHA256(SHA256(password))) ++ salt)\<close>.
\<close>

theorem cachingSha2Auth_nonempty_password:
  assumes "\<forall>x. length (sha256 x) = 32" and "password \<noteq> []"
  shows "cachingSha2Auth sha256 salt password =
           Inr (map2 (XOR) (sha256 password)
                  (sha256 (sha256 (sha256 (sha256 password)) @ salt)))"
  using assms by (simp add: cachingSha2Auth_def sha256Hash_def Let_def xorRange_eq)

text \<open>
  At the password \<open>a\<close> and a salt of 20 bytes, under a digest that tells the iterates
  apart, the response is the one with the third digest and is not the one with the
  second.
\<close>

theorem cachingSha2Auth_nonempty_password_witness:
  "(\<forall>x. length (prefixed 32 x) = 32) \<and> [0x61 :: byte] \<noteq> [] \<and>
   cachingSha2Auth (prefixed 32) (replicate 20 7) [0x61] =
     Inr (map2 (XOR) (prefixed 32 [0x61])
            (prefixed 32 (prefixed 32 (prefixed 32 (prefixed 32 [0x61])) @ replicate 20 7))) \<and>
   cachingSha2Auth (prefixed 32) (replicate 20 7) [0x61] \<noteq>
     Inr (map2 (XOR) (prefixed 32 [0x61])
            (prefixed 32 (prefixed 32 (prefixed 32 [0x61]) @ replicate 20 7)))"
proof -
  have w: "\<forall>x. length (prefixed 32 x) = 32" and p: "[0x61 :: byte] \<noteq> []"
    by simp_all
  have code: "cachingSha2Auth (prefixed 32) (replicate 20 7) [0x61] =
     Inr (map2 (XOR) (prefixed 32 [0x61])
            (prefixed 32 (prefixed 32 (prefixed 32 (prefixed 32 [0x61])) @ replicate 20 7)))"
    using cachingSha2Auth_nonempty_password [OF w p] .
  have d1: "prefixed 32 [0x61] = 0x62 # 0x61 # replicate 30 0"
    by (simp add: prefixed_def)
  have d2: "prefixed 32 (0x62 # 0x61 # replicate 30 0) = 0xE3 # 0x62 # 0x61 # replicate 29 0"
    by (simp add: prefixed_def sum_list_replicate)
  have d3: "prefixed 32 (0xE3 # 0x62 # 0x61 # replicate 29 0) =
              0xC6 # 0xE3 # 0x62 # 0x61 # replicate 28 0"
    by (simp add: prefixed_def sum_list_replicate)
  have s2: "prefixed 32 ((0xE3 # 0x62 # 0x61 # replicate 29 0) @ replicate 20 7) ! 1 = 0xE3"
    by (simp add: prefixed_def)
  have s3: "prefixed 32 ((0xC6 # 0xE3 # 0x62 # 0x61 # replicate 28 0) @ replicate 20 7) ! 1 = 0xC6"
    by (simp add: prefixed_def)
  let ?a = "prefixed 32 ((0xC6 # 0xE3 # 0x62 # 0x61 # replicate 28 0) @ replicate 20 7)"
  let ?b = "prefixed 32 ((0xE3 # 0x62 # 0x61 # replicate 29 0) @ replicate 20 7)"
  have "map2 (XOR) (0x62 # 0x61 # replicate 30 0) ?a ! 1 = 0x61 XOR 0xC6"
    using s3 by (simp add: nth_Cons')
  moreover have "map2 (XOR) (0x62 # 0x61 # replicate 30 (0 :: byte)) ?b ! 1 = 0x61 XOR 0xE3"
    using s2 by (simp add: nth_Cons')
  moreover have "(0x61 :: byte) XOR 0xC6 \<noteq> 0x61 XOR 0xE3"
    by simp
  ultimately have "map2 (XOR) (0x62 # 0x61 # replicate 30 0) ?a \<noteq>
                   map2 (XOR) (0x62 # 0x61 # replicate 30 0) ?b"
    by metis
  then show ?thesis
    using w p code by (simp add: d1 d2 d3)
qed

lemma cachingSha2Auth_empty_password_differs:
  assumes "\<forall>x. length (sha256 x) = 32"
  shows "cachingSha2Auth sha256 salt [] \<noteq>
           Inr (map2 (XOR) (sha256 []) (sha256 (sha256 (sha256 []) @ salt)))"
proof -
  have "length (map2 (XOR) (sha256 []) (sha256 (sha256 (sha256 []) @ salt))) = 32"
    using assms by simp
  then have "map2 (XOR) (sha256 []) (sha256 (sha256 (sha256 []) @ salt)) \<noteq> []"
    by (metis list.size(3) zero_neq_numeral)
  then show ?thesis
    by (simp add: cachingSha2Auth_empty_password)
qed

text \<open>
  C8. Both algorithms should return no bytes for the empty password. The
  \<open>nativeSha1Auth\<close> of \<open>src/binlog/authentication.go\<close> has no guard for it and returns
  the 20 bytes \<open>SHA1() XOR SHA1(salt ++ SHA1(SHA1()))\<close>.
\<close>

theorem nativeSha1Auth_binlog_empty_password:
  assumes "\<forall>x. length (sha1 x) = 20"
  shows "\<exists>r. nativeSha1Auth_binlog sha1 salt [] = Inr r \<and> length r = 20 \<and>
           r = map2 (XOR) (sha1 []) (sha1 (salt @ sha1 (sha1 [])))"
  using assms by (simp add: nativeSha1Auth_binlog_def sha1Hash_def Let_def xorRange_eq)

theorem nativeSha1Auth_binlog_empty_password_witness:
  "(\<forall>x. length (standin 20 x) = 20) \<and>
   (\<exists>r. nativeSha1Auth_binlog (standin 20) (replicate 20 7) [] = Inr r \<and> length r = 20)"
  using nativeSha1Auth_binlog_empty_password [of "standin 20" "replicate 20 7"]
  by auto

end
